theory Spec2Isabelle
  imports Complex_Main "HOL-Library.Word"
begin

section \<open>JavaScript numbers\<close>

text \<open>
  The analysis core of JazzPlayer (\<^verbatim>\<open>src/utils/audioAnalysis.ts\<close> and
  \<^verbatim>\<open>src/utils/pitchDetection.ts\<close>) computes on JavaScript numbers. The
  control flow of the code depends on the special values of IEEE 754: a comparison with
  \<^verbatim>\<open>NaN\<close> is false, \<^verbatim>\<open>0 / 0\<close> is \<^verbatim>\<open>NaN\<close>, \<^verbatim>\<open>1 / 0\<close> is
  \<^verbatim>\<open>Infinity\<close>, \<^verbatim>\<open>0 * Infinity\<close> is \<^verbatim>\<open>NaN\<close>. The type \<open>jsnum\<close>
  keeps these values apart from the finite ones.

  Idealisation: a finite value is a real number and finite arithmetic is exact. Rounding
  to 53 (or, in a \<^verbatim>\<open>Float32Array\<close>, 24) bits, overflow of a finite result to
  an infinity and the sign of zero are not modelled; a division of a non-zero finite value
  by zero takes the sign of the dividend, as it does for the divisor \<^verbatim>\<open>+0\<close>.
\<close>

datatype jsnum = Fin real | PInf | NInf | NaN

fun js_neg :: "jsnum \<Rightarrow> jsnum" where
  "js_neg (Fin a) = Fin (- a)"
| "js_neg PInf = NInf"
| "js_neg NInf = PInf"
| "js_neg NaN = NaN"

fun js_add :: "jsnum \<Rightarrow> jsnum \<Rightarrow> jsnum" where
  "js_add NaN _ = NaN"
| "js_add _ NaN = NaN"
| "js_add (Fin a) (Fin b) = Fin (a + b)"
| "js_add (Fin a) PInf = PInf"
| "js_add (Fin a) NInf = NInf"
| "js_add PInf NInf = NaN"
| "js_add PInf _ = PInf"
| "js_add NInf PInf = NaN"
| "js_add NInf _ = NInf"

definition js_sub :: "jsnum \<Rightarrow> jsnum \<Rightarrow> jsnum" where
  "js_sub a b = js_add a (js_neg b)"

text \<open>The infinity of the sign of a non-zero real; \<open>NaN\<close> for zero.\<close>

definition inf_of_sign :: "real \<Rightarrow> jsnum" where
  "inf_of_sign s = (if s = 0 then NaN else if 0 < s then PInf else NInf)"

fun js_mul :: "jsnum \<Rightarrow> jsnum \<Rightarrow> jsnum" where
  "js_mul NaN _ = NaN"
| "js_mul _ NaN = NaN"
| "js_mul (Fin a) (Fin b) = Fin (a * b)"
| "js_mul (Fin a) PInf = inf_of_sign a"
| "js_mul (Fin a) NInf = inf_of_sign (- a)"
| "js_mul PInf (Fin b) = inf_of_sign b"
| "js_mul NInf (Fin b) = inf_of_sign (- b)"
| "js_mul PInf PInf = PInf"
| "js_mul PInf NInf = NInf"
| "js_mul NInf PInf = NInf"
| "js_mul NInf NInf = PInf"

fun js_div :: "jsnum \<Rightarrow> jsnum \<Rightarrow> jsnum" where
  "js_div NaN _ = NaN"
| "js_div _ NaN = NaN"
| "js_div (Fin a) (Fin b) = (if b = 0 then inf_of_sign a else Fin (a / b))"
| "js_div (Fin a) PInf = Fin 0"
| "js_div (Fin a) NInf = Fin 0"
| "js_div PInf (Fin b) = (if 0 \<le> b then PInf else NInf)"
| "js_div NInf (Fin b) = (if 0 \<le> b then NInf else PInf)"
| "js_div PInf _ = NaN"
| "js_div NInf _ = NaN"

fun js_lt :: "jsnum \<Rightarrow> jsnum \<Rightarrow> bool" where
  "js_lt NaN _ = False"
| "js_lt _ NaN = False"
| "js_lt (Fin a) (Fin b) = (a < b)"
| "js_lt (Fin a) PInf = True"
| "js_lt (Fin a) NInf = False"
| "js_lt PInf _ = False"
| "js_lt NInf NInf = False"
| "js_lt NInf _ = True"

fun js_le :: "jsnum \<Rightarrow> jsnum \<Rightarrow> bool" where
  "js_le NaN _ = False"
| "js_le _ NaN = False"
| "js_le (Fin a) (Fin b) = (a \<le> b)"
| "js_le (Fin a) PInf = True"
| "js_le (Fin a) NInf = False"
| "js_le PInf PInf = True"
| "js_le PInf _ = False"
| "js_le NInf _ = True"

definition js_gt :: "jsnum \<Rightarrow> jsnum \<Rightarrow> bool" where
  "js_gt a b = js_lt b a"

definition js_ge :: "jsnum \<Rightarrow> jsnum \<Rightarrow> bool" where
  "js_ge a b = js_le b a"

text \<open>\<^verbatim>\<open>isFinite\<close>, \<^verbatim>\<open>Math.sqrt\<close>, \<^verbatim>\<open>Math.round\<close> (halves go up) and
  \<^verbatim>\<open>Math.pow(2, y)\<close>.\<close>

fun isFinite :: "jsnum \<Rightarrow> bool" where
  "isFinite (Fin a) = True"
| "isFinite _ = False"

fun Math_sqrt :: "jsnum \<Rightarrow> jsnum" where
  "Math_sqrt (Fin a) = (if a < 0 then NaN else Fin (sqrt a))"
| "Math_sqrt PInf = PInf"
| "Math_sqrt NInf = NaN"
| "Math_sqrt NaN = NaN"

fun Math_round :: "jsnum \<Rightarrow> jsnum" where
  "Math_round (Fin a) = Fin (of_int \<lfloor>a + 1 / 2\<rfloor>)"
| "Math_round x = x"

fun Math_pow2 :: "jsnum \<Rightarrow> jsnum" where
  "Math_pow2 (Fin y) = Fin (2 powr y)"
| "Math_pow2 PInf = PInf"
| "Math_pow2 NInf = Fin 0"
| "Math_pow2 NaN = NaN"

section \<open>Beat detection (audioAnalysis.ts)\<close>

text \<open>
  A \<^verbatim>\<open>Uint8Array\<close> is a list of bytes. Reading it at an index outside the array
  gives \<^verbatim>\<open>undefined\<close>, which arithmetic turns into \<^verbatim>\<open>NaN\<close> and with which
  every comparison is false; \<open>u8_get\<close> returns \<open>NaN\<close> there.
\<close>

type_synonym u8array = "8 word list"

definition u8_get :: "u8array \<Rightarrow> int \<Rightarrow> jsnum" where
  "u8_get a i = (if 0 \<le> i \<and> i < int (length a) then Fin (real (unat (a ! nat i))) else NaN)"

record BeatInfo =
  isBeat :: bool
  energy :: jsnum
  averageEnergy :: jsnum

definition HISTORY_SIZE :: nat where
  "HISTORY_SIZE = 43"

text \<open>
  The loop \<^verbatim>\<open>for (let i = 0; i < bassRange; i++) energy += frequencyData[i] * frequencyData[i]\<close>,
  from index \<open>i\<close> with the sum so far.
\<close>

function bass_loop :: "u8array \<Rightarrow> nat \<Rightarrow> nat \<Rightarrow> jsnum \<Rightarrow> jsnum" where
  "bass_loop fd bassRange i e =
     (if i < bassRange
      then bass_loop fd bassRange (Suc i) (js_add e (js_mul (u8_get fd (int i)) (u8_get fd (int i))))
      else e)"
  by pat_completeness auto
termination
  by (relation "measure (\<lambda>(fd, bassRange, i, e). bassRange - i)") auto

declare bass_loop.simps [simp del]

text \<open>\<^verbatim>\<open>energyHistory.reduce((a, b) => a + b, 0)\<close>.\<close>

definition history_sum :: "jsnum list \<Rightarrow> jsnum" where
  "history_sum h = foldl js_add (Fin 0) h"

text \<open>
  \<^verbatim>\<open>detectBeat\<close> reads and updates the module-level array \<^verbatim>\<open>energyHistory\<close>;
  the model takes the history and returns the new one with the result.
  \<^verbatim>\<open>Math.floor(frequencyData.length * 0.1)\<close> is \<open>length div 10\<close>.
\<close>

definition detectBeat :: "u8array \<Rightarrow> jsnum \<Rightarrow> jsnum list \<Rightarrow> BeatInfo \<times> jsnum list" where
  "detectBeat frequencyData sensitivity energyHistory =
     (let bassRange = length frequencyData div 10;
          energy0 = bass_loop frequencyData bassRange 0 (Fin 0);
          energy1 = Math_sqrt (js_div energy0 (Fin (real bassRange)));
          pushed = energyHistory @ [energy1];
          history = (if length pushed > HISTORY_SIZE then tl pushed else pushed);
          average = js_div (history_sum history) (Fin (real (length history)));
          beat = (js_gt energy1 (js_mul average sensitivity) \<and> js_gt energy1 (Fin 50))
      in (\<lparr>isBeat = beat, energy = energy1, averageEnergy = average\<rparr>, history))"

definition resetBeatDetection :: "jsnum list \<Rightarrow> jsnum list" where
  "resetBeatDetection energyHistory = []"

text \<open>A session is a sequence of calls on the module's history, which starts empty.\<close>

datatype beat_call = DetectBeat u8array jsnum | ResetBeatDetection

fun beat_step :: "jsnum list \<Rightarrow> beat_call \<Rightarrow> jsnum list" where
  "beat_step h (DetectBeat fd s) = snd (detectBeat fd s h)"
| "beat_step h ResetBeatDetection = resetBeatDetection h"

definition history_after :: "beat_call list \<Rightarrow> jsnum list" where
  "history_after calls = foldl beat_step [] calls"

section \<open>Note mapping (pitchDetection.ts)\<close>

definition NOTE_NAMES :: "string list" where
  "NOTE_NAMES = [''C'', ''C#'', ''D'', ''D#'', ''E'', ''F'', ''F#'', ''G'', ''G#'', ''A'', ''A#'', ''B'']"

text \<open>
  The field \<^verbatim>\<open>note\<close> of a \<^verbatim>\<open>PitchResult\<close> is \<open>noteName\<close> here. Its fields
  \<^verbatim>\<open>octave\<close> and \<^verbatim>\<open>cents\<close> are results of
  \<^verbatim>\<open>Math.floor\<close> and \<^verbatim>\<open>Math.round\<close> on finite values: integers.
\<close>

record PitchResult =
  frequency :: jsnum
  noteName :: string
  octave :: int
  cents :: int

text \<open>\<^verbatim>\<open>Array.prototype.indexOf\<close>: the first index of the element, or -1.\<close>

fun indexOf :: "'a list \<Rightarrow> 'a \<Rightarrow> int" where
  "indexOf [] x = - 1"
| "indexOf (y # ys) x =
     (if y = x then 0 else (let r = indexOf ys x in if r = - 1 then - 1 else r + 1))"

text \<open>The remainder operator \<^verbatim>\<open>%\<close> on integers: the result has the sign of the dividend.\<close>

definition js_rem :: "int \<Rightarrow> int \<Rightarrow> int" where
  "js_rem a b = sgn a * (\<bar>a\<bar> mod \<bar>b\<bar>)"

text \<open>
  After the guard the frequency is finite and positive, so \<^verbatim>\<open>Math.log2\<close> is applied
  to a positive real and every later value is finite.
\<close>

definition frequencyToNote :: "jsnum \<Rightarrow> PitchResult option" where
  "frequencyToNote freq =
     (if js_le freq (Fin 0) \<or> \<not> isFinite freq then None
      else (case freq of
        Fin x \<Rightarrow>
          (let semitones = 12 * log 2 (x / 440);
               roundedSemitones = \<lfloor>semitones + 1 / 2\<rfloor>;
               cents = \<lfloor>(semitones - of_int roundedSemitones) * 100 + 1 / 2\<rfloor>;
               noteIndex = js_rem (roundedSemitones + 9) 12;
               octave = \<lfloor>(of_int (roundedSemitones + 9) :: real) / 12\<rfloor> + 4;
               noteName = NOTE_NAMES ! nat (if noteIndex \<ge> 0 then noteIndex else noteIndex + 12)
           in Some \<lparr>frequency = freq, noteName = noteName, octave = octave, cents = cents\<rparr>)
      | _ \<Rightarrow> None))"

text \<open>\<^verbatim>\<open>noteToFrequency(note, octave)\<close>; the parameters are \<open>nm\<close> and \<open>oct\<close> here.\<close>

definition noteToFrequency :: "string \<Rightarrow> jsnum \<Rightarrow> jsnum" where
  "noteToFrequency nm oct =
     (let noteIndex = indexOf NOTE_NAMES nm
      in if noteIndex = - 1 then Fin 0
         else (let semitones = js_add (Fin (of_int (noteIndex - 9))) (js_mul (js_sub oct (Fin 4)) (Fin 12))
               in js_mul (Fin 440) (Math_pow2 (js_div semitones (Fin 12)))))"

text \<open>\<^verbatim>\<open>getPianoNotes\<close>: the standard piano range, A0 to C8, as the two nested loops list it.\<close>

definition getPianoNotes :: "(string \<times> int \<times> jsnum) list" where
  "getPianoNotes =
     concat (map (\<lambda>octave. concat (map (\<lambda>noteIndex.
        if octave = 0 \<and> noteIndex < 9 then []
        else if octave = 8 \<and> noteIndex > 0 then []
        else [(NOTE_NAMES ! noteIndex, int octave,
               noteToFrequency (NOTE_NAMES ! noteIndex) (Fin (real octave)))]) [0..<12])) [0..<9])"

section \<open>YIN pitch detection (pitchDetection.ts)\<close>

text \<open>
  A \<^verbatim>\<open>Float32Array\<close> is a list of numbers; a read outside it gives
  \<^verbatim>\<open>undefined\<close> (\<open>NaN\<close> in arithmetic, false in comparisons) and a write outside it
  is ignored, as \<open>list_update\<close> does.
\<close>

definition f32_get :: "jsnum list \<Rightarrow> int \<Rightarrow> jsnum" where
  "f32_get a i = (if 0 \<le> i \<and> i < int (length a) then a ! nat i else NaN)"

text \<open>Step 1, the inner loop over \<open>i\<close> for one lag \<open>tau\<close>, and the outer loop over the lags.\<close>

function diff_inner :: "jsnum list \<Rightarrow> nat \<Rightarrow> nat \<Rightarrow> jsnum list \<Rightarrow> jsnum list" where
  "diff_inner buffer tau i yinBuffer =
     (if i < length yinBuffer
      then (let delta = js_sub (f32_get buffer (int i)) (f32_get buffer (int (i + tau)))
            in diff_inner buffer tau (Suc i)
                 (yinBuffer[tau := js_add (f32_get yinBuffer (int tau)) (js_mul delta delta)]))
      else yinBuffer)"
  by pat_completeness auto
termination
  by (relation "measure (\<lambda>(buffer, tau, i, yinBuffer). length yinBuffer - i)") auto

declare diff_inner.simps [simp del]

function diff_outer :: "jsnum list \<Rightarrow> nat \<Rightarrow> jsnum list \<Rightarrow> jsnum list" where
  "diff_outer buffer tau yinBuffer =
     (if tau < length yinBuffer
      then diff_outer buffer (Suc tau) (diff_inner buffer tau 0 (yinBuffer[tau := Fin 0]))
      else yinBuffer)"
  by pat_completeness auto
termination
proof (relation "measure (\<lambda>(buffer, tau, yinBuffer). length yinBuffer - tau)")
  show "wf (measure (\<lambda>(buffer, tau, yinBuffer). length yinBuffer - tau))"
    by simp
next
  fix buffer :: "jsnum list" and tau :: nat and yinBuffer :: "jsnum list"
  assume "tau < length yinBuffer"
  moreover have "length (diff_inner buffer tau i ys) = length ys" for i ys
    by (induction buffer tau i ys rule: diff_inner.induct)
       (subst diff_inner.simps, simp add: Let_def)
  ultimately show "((buffer, Suc tau, diff_inner buffer tau 0 (yinBuffer[tau := Fin 0])),
      (buffer, tau, yinBuffer)) \<in> measure (\<lambda>(buffer, tau, yinBuffer). length yinBuffer - tau)"
    by simp
qed

declare diff_outer.simps [simp del]

text \<open>Step 2, the loop from \<open>tau = 1\<close> with the running sum.\<close>

function cmnd_loop :: "nat \<Rightarrow> jsnum \<Rightarrow> jsnum list \<Rightarrow> jsnum list" where
  "cmnd_loop tau runningSum yinBuffer =
     (if tau < length yinBuffer
      then (let runningSum' = js_add runningSum (f32_get yinBuffer (int tau))
            in cmnd_loop (Suc tau) runningSum'
                 (yinBuffer[tau := js_mul (f32_get yinBuffer (int tau))
                                     (js_div (Fin (real tau)) runningSum')]))
      else yinBuffer)"
  by pat_completeness auto
termination
  by (relation "measure (\<lambda>(tau, runningSum, yinBuffer). length yinBuffer - tau)") auto

declare cmnd_loop.simps [simp del]

text \<open>
  Step 3: the inner \<^verbatim>\<open>while\<close> that descends to the local minimum, and the search from
  \<open>tau = 2\<close> for the first value below the threshold; -1 when there is none.
\<close>

function descend :: "jsnum list \<Rightarrow> nat \<Rightarrow> nat" where
  "descend yinBuffer tau =
     (if tau + 1 < length yinBuffer \<and>
         js_lt (f32_get yinBuffer (int (tau + 1))) (f32_get yinBuffer (int tau))
      then descend yinBuffer (Suc tau)
      else tau)"
  by pat_completeness auto
termination
  by (relation "measure (\<lambda>(yinBuffer, tau). length yinBuffer - tau)") auto

declare descend.simps [simp del]

function search :: "jsnum list \<Rightarrow> jsnum \<Rightarrow> nat \<Rightarrow> int" where
  "search yinBuffer threshold tau =
     (if tau < length yinBuffer
      then (if js_lt (f32_get yinBuffer (int tau)) threshold
            then int (descend yinBuffer tau)
            else search yinBuffer threshold (Suc tau))
      else - 1)"
  by pat_completeness auto
termination
  by (relation "measure (\<lambda>(yinBuffer, threshold, tau). length yinBuffer - tau)") auto

declare search.simps [simp del]

text \<open>Step 4, the parabolic interpolation around the estimate.\<close>

definition parabolic :: "jsnum list \<Rightarrow> int \<Rightarrow> jsnum" where
  "parabolic yinBuffer tauEstimate =
     (let x0 = (if tauEstimate < 1 then tauEstimate else tauEstimate - 1);
          x2 = (if tauEstimate + 1 < int (length yinBuffer) then tauEstimate + 1 else tauEstimate)
      in if x0 = tauEstimate
         then (if js_le (f32_get yinBuffer tauEstimate) (f32_get yinBuffer x2)
               then Fin (of_int tauEstimate) else Fin (of_int x2))
         else if x2 = tauEstimate
         then (if js_le (f32_get yinBuffer tauEstimate) (f32_get yinBuffer x0)
               then Fin (of_int tauEstimate) else Fin (of_int x0))
         else (let s0 = f32_get yinBuffer x0;
                   s1 = f32_get yinBuffer tauEstimate;
                   s2 = f32_get yinBuffer x2
               in js_add (Fin (of_int tauEstimate))
                    (js_div (js_sub s2 s0)
                       (js_mul (Fin 2) (js_sub (js_sub (js_mul (Fin 2) s1) s2) s0)))))"

text \<open>The cumulative mean normalised difference function of steps 1 and 2.\<close>

definition yin_cmnd :: "jsnum list \<Rightarrow> jsnum list" where
  "yin_cmnd buffer =
     (let yinBuffer = replicate (length buffer div 2) (Fin 0);
          yinBuffer = diff_outer buffer 0 yinBuffer;
          yinBuffer = yinBuffer[0 := Fin 1]
      in cmnd_loop 1 (Fin 0) yinBuffer)"

text \<open>\<^verbatim>\<open>detectPitchYIN\<close>; \<open>None\<close> is \<^verbatim>\<open>null\<close>.\<close>

definition detectPitchYIN :: "jsnum list \<Rightarrow> jsnum \<Rightarrow> jsnum \<Rightarrow> jsnum option" where
  "detectPitchYIN buffer sampleRate threshold =
     (let yinBuffer = yin_cmnd buffer;
          tauEstimate = search yinBuffer threshold 2
      in if tauEstimate = - 1 then None
         else Some (js_div sampleRate (parabolic yinBuffer tauEstimate)))"

text \<open>
  What steps 1 and 2 compute on a buffer of finite samples \<open>xs\<close>, written over the
  reals: the difference function \<open>d(tau)\<close> of step 1, its running sum from lag 1, and
  the normalised difference of step 2, which is \<open>NaN\<close> (\<^verbatim>\<open>0 * (tau / 0)\<close>) as
  long as the running sum is zero. The loops are proved to compute them below.
\<close>

definition diff_fn :: "real list \<Rightarrow> nat \<Rightarrow> real" where
  "diff_fn xs tau = (\<Sum>k<length xs div 2. (xs ! k - xs ! (k + tau))\<^sup>2)"

definition run_sum :: "real list \<Rightarrow> nat \<Rightarrow> real" where
  "run_sum xs tau = (\<Sum>j = 1..<Suc tau. diff_fn xs j)"

definition cmnd_fn :: "real list \<Rightarrow> nat \<Rightarrow> jsnum" where
  "cmnd_fn xs tau =
     (if run_sum xs tau = 0 then NaN else Fin (diff_fn xs tau * real tau / run_sum xs tau))"

section \<open>Spectral features (audioAnalysis.ts)\<close>

definition binToFrequency :: "jsnum \<Rightarrow> jsnum \<Rightarrow> jsnum \<Rightarrow> jsnum" where
  "binToFrequency binIndex sampleRate fftSize = js_div (js_mul binIndex sampleRate) fftSize"

definition frequencyToBin :: "jsnum \<Rightarrow> jsnum \<Rightarrow> jsnum \<Rightarrow> jsnum" where
  "frequencyToBin freq sampleRate fftSize = Math_round (js_div (js_mul freq fftSize) sampleRate)"

text \<open>
  The three bin loops have the shape
  \<^verbatim>\<open>for (let i = lo; i < hi && i < n; i++) body\<close>. \<open>loop_indices lo hi n\<close> is the list
  of the values of \<open>i\<close> at which the body runs. The start is a result of
  \<^verbatim>\<open>Math.round\<close> (plus 1 in \<^verbatim>\<open>getFrequencyPeaks\<close>): an integer, an infinity or
  \<open>NaN\<close>. From \<open>NaN\<close> or \<open>Infinity\<close> the condition is false at once. From
  \<open>-Infinity\<close> the condition \<^verbatim>\<open>i < n\<close> holds and \<^verbatim>\<open>i++\<close> leaves \<open>i\<close>
  unchanged: when \<^verbatim>\<open>i < hi\<close> holds too the loop never ends, which is \<open>None\<close>.
  From a finite start \<^verbatim>\<open>i++\<close> is exact here; a double below \<open>-2^53\<close>, where
  it is not, is no bin of a non-negative frequency.
\<close>

function loop_from :: "int \<Rightarrow> jsnum \<Rightarrow> int \<Rightarrow> int list" where
  "loop_from i hi n =
     (if js_lt (Fin (of_int i)) hi \<and> i < n then i # loop_from (i + 1) hi n else [])"
  by pat_completeness auto
termination
  by (relation "measure (\<lambda>(i, hi, n). nat (n - i))") auto

declare loop_from.simps [simp del]

fun loop_indices :: "jsnum \<Rightarrow> jsnum \<Rightarrow> int \<Rightarrow> int list option" where
  "loop_indices (Fin a) hi n = Some (loop_from \<lfloor>a\<rfloor> hi n)"
| "loop_indices NInf hi n = (if js_lt NInf hi then None else Some [])"
| "loop_indices PInf hi n = Some []"
| "loop_indices NaN hi n = Some []"

text \<open>
  \<^verbatim>\<open>getDominantFrequency\<close>. The outer \<open>None\<close> is a call that does not return, the inner
  one is \<^verbatim>\<open>null\<close>. \<open>dominant_bins\<close> are the indices at which the loop reads
  \<^verbatim>\<open>frequencyData[i]\<close>.
\<close>

definition dominant_bins :: "u8array \<Rightarrow> jsnum \<Rightarrow> jsnum \<Rightarrow> jsnum \<Rightarrow> jsnum \<Rightarrow> int list option" where
  "dominant_bins frequencyData sampleRate fftSize minFreq maxFreq =
     (let minBin = frequencyToBin minFreq sampleRate fftSize;
          maxBin = frequencyToBin maxFreq sampleRate fftSize
      in loop_indices minBin maxBin (int (length frequencyData)))"



text \<open>
  \<^verbatim>\<open>getFrequencyPeaks\<close>. A peak is the pair of its frequency and its amplitude, a
  byte. At each index \<open>i\<close> of \<open>peak_bins\<close> the loop reads \<^verbatim>\<open>frequencyData\<close> at
  \<open>i\<close>, \<open>i - 1\<close> and \<open>i + 1\<close>. The sort is stable and descending in the amplitude;
  \<^verbatim>\<open>numPeaks\<close> is a natural number here.
\<close>

definition peak_bins :: "u8array \<Rightarrow> jsnum \<Rightarrow> jsnum \<Rightarrow> jsnum \<Rightarrow> jsnum \<Rightarrow> int list option" where
  "peak_bins frequencyData sampleRate fftSize minFreq maxFreq =
     (let minBin = frequencyToBin minFreq sampleRate fftSize;
          maxBin = frequencyToBin maxFreq sampleRate fftSize
      in loop_indices (js_add minBin (Fin 1)) (js_sub maxBin (Fin 1))
           (int (length frequencyData) - 1))"

definition is_peak :: "u8array \<Rightarrow> jsnum \<Rightarrow> int \<Rightarrow> bool" where
  "is_peak frequencyData threshold i =
     (js_gt (u8_get frequencyData i) (u8_get frequencyData (i - 1)) \<and>
      js_gt (u8_get frequencyData i) (u8_get frequencyData (i + 1)) \<and>
      js_gt (u8_get frequencyData i) threshold)"

definition getFrequencyPeaks ::
  "u8array \<Rightarrow> jsnum \<Rightarrow> jsnum \<Rightarrow> nat \<Rightarrow> jsnum \<Rightarrow> jsnum \<Rightarrow> jsnum \<Rightarrow> (jsnum \<times> nat) list option" where
  "getFrequencyPeaks frequencyData sampleRate fftSize numPeaks minFreq maxFreq threshold =
     (case peak_bins frequencyData sampleRate fftSize minFreq maxFreq of
        None \<Rightarrow> None
      | Some bins \<Rightarrow>
          (let peaks = map (\<lambda>i. (binToFrequency (Fin (of_int i)) sampleRate fftSize,
                                  unat (frequencyData ! nat i)))
                         (filter (is_peak frequencyData threshold) bins)
           in Some (take numPeaks (sort_key (\<lambda>p. - int (snd p)) peaks))))"

text \<open>\<^verbatim>\<open>calculateBandEnergies\<close> and its table of the seven bands.\<close>

record BandEnergy =
  subBass :: jsnum
  bass :: jsnum
  lowMid :: jsnum
  mid :: jsnum
  highMid :: jsnum
  presence :: jsnum
  brilliance :: jsnum

definition bands :: "(real \<times> real) list" where
  "bands = [(20, 60), (60, 250), (250, 500), (500, 2000), (2000, 4000), (4000, 6000),
            (6000, 20000)]"

definition band_bins :: "u8array \<Rightarrow> jsnum \<Rightarrow> jsnum \<Rightarrow> real \<times> real \<Rightarrow> int list option" where
  "band_bins frequencyData sampleRate fftSize band =
     (let minBin = frequencyToBin (Fin (fst band)) sampleRate fftSize;
          maxBin = frequencyToBin (Fin (snd band)) sampleRate fftSize
      in loop_indices minBin maxBin (int (length frequencyData)))"

definition band_energy :: "u8array \<Rightarrow> jsnum \<Rightarrow> jsnum \<Rightarrow> real \<times> real \<Rightarrow> jsnum option" where
  "band_energy frequencyData sampleRate fftSize band =
     (case band_bins frequencyData sampleRate fftSize band of
        None \<Rightarrow> None
      | Some bins \<Rightarrow>
          (let sum = foldl (\<lambda>s i. js_add s (u8_get frequencyData i)) (Fin 0) bins;
               count = length bins
           in Some (if count > 0 then js_div sum (Fin (real count)) else Fin 0)))"

definition calculateBandEnergies :: "u8array \<Rightarrow> jsnum \<Rightarrow> jsnum \<Rightarrow> BandEnergy option" where
  "calculateBandEnergies frequencyData sampleRate fftSize =
     (case those (map (band_energy frequencyData sampleRate fftSize) bands) of
        Some [e1, e2, e3, e4, e5, e6, e7] \<Rightarrow>
          Some \<lparr>subBass = e1, bass = e2, lowMid = e3, mid = e4, highMid = e5, presence = e6,
                brilliance = e7\<rparr>
      | _ \<Rightarrow> None)"

section \<open>Basic facts about JavaScript numbers\<close>

lemma js_add_NaN_right [simp]: "js_add x NaN = NaN"
  by (cases x) simp_all

lemma js_add_zero_left [simp]: "js_add (Fin 0) x = x"
  by (cases x) simp_all

lemma js_div_one [simp]: "js_div x (Fin 1) = x"
  by (cases x) simp_all

lemma js_lt_NaN_right [simp]: "js_lt x NaN = False"
  by (cases x) simp_all

section \<open>Properties of beat detection\<close>

lemma history_sum_snoc: "history_sum (h @ [x]) = js_add (history_sum h) x"
  by (simp add: history_sum_def)

lemma history_sum_NaN_last: "history_sum (h @ [NaN]) = NaN"
  by (simp add: history_sum_snoc)



lemma detectBeat_length:
  "length h \<le> HISTORY_SIZE \<Longrightarrow> length (snd (detectBeat fd s h)) \<le> HISTORY_SIZE"
  by (simp add: detectBeat_def Let_def)

lemma beat_step_length:
  "length h \<le> HISTORY_SIZE \<Longrightarrow> length (beat_step h c) \<le> HISTORY_SIZE"
  by (cases c) (simp_all add: detectBeat_length resetBeatDetection_def)

lemma foldl_beat_step_length:
  "length h \<le> HISTORY_SIZE \<Longrightarrow> length (foldl beat_step h calls) \<le> HISTORY_SIZE"
  by (induction calls arbitrary: h) (simp_all add: beat_step_length)

lemma history_after_snoc: "history_after (calls @ [c]) = beat_step (history_after calls) c"
  by (simp add: history_after_def)

text \<open>
  C5. After every sequence of \<^verbatim>\<open>detectBeat\<close> and \<^verbatim>\<open>resetBeatDetection\<close> calls,
  started from the empty history of a fresh module, the history holds at most 43 samples:
  a \<^verbatim>\<open>detectBeat\<close> call appends its energy and drops the oldest sample when that
  makes 44, and a reset empties the history.
\<close>

theorem history_bounded:
  "length (history_after calls) \<le> 43 \<and>
   history_after (calls @ [ResetBeatDetection]) = [] \<and>
   history_after (calls @ [DetectBeat fd s]) =
     (if length (history_after calls) < 43
      then history_after calls @ [energy (fst (detectBeat fd s (history_after calls)))]
      else tl (history_after calls) @ [energy (fst (detectBeat fd s (history_after calls)))])"
proof -
  have b: "length (history_after calls) \<le> 43"
    using foldl_beat_step_length [of "[]" calls]
    by (simp add: history_after_def HISTORY_SIZE_def)
  have r: "history_after (calls @ [ResetBeatDetection]) = []"
    by (simp add: history_after_snoc resetBeatDetection_def)
  have "history_after calls \<noteq> []" if "\<not> length (history_after calls) < 43"
    using that by auto
  then have d: "history_after (calls @ [DetectBeat fd s]) =
     (if length (history_after calls) < 43
      then history_after calls @ [energy (fst (detectBeat fd s (history_after calls)))]
      else tl (history_after calls) @ [energy (fst (detectBeat fd s (history_after calls)))])"
    by (simp add: history_after_snoc detectBeat_def Let_def HISTORY_SIZE_def)
  show ?thesis
    using b r d by blast
qed


text \<open>
  C7. On a zero-length spectrum \<^verbatim>\<open>bassRange\<close> is 0 and the energy is
  \<^verbatim>\<open>Math.sqrt(0 / 0)\<close>: the call returns, reports no beat, but its energy and
  average are \<open>NaN\<close>, not 0, and \<open>NaN\<close> is stored in the history. The sibling
  functions \<^verbatim>\<open>calculateBandEnergies\<close> and \<^verbatim>\<open>calculateSpectralCentroid\<close>
  guard the same division (\<^verbatim>\<open>count > 0 ? sum / count : 0\<close>).
\<close>

theorem detectBeat_empty_spectrum:
  "detectBeat [] s h =
     (\<lparr>isBeat = False, energy = NaN, averageEnergy = NaN\<rparr>,
      if length h < 43 then h @ [NaN] else tl h @ [NaN])"
proof -
  have e: "bass_loop [] 0 0 (Fin 0) = Fin 0"
    by (subst bass_loop.simps) simp
  have en: "Math_sqrt (js_div (Fin 0) (Fin (real (0::nat)))) = NaN"
    by (simp add: inf_of_sign_def)
  show ?thesis
  proof (cases "length h < 43")
    case True
    then show ?thesis
      by (simp add: detectBeat_def Let_def e inf_of_sign_def HISTORY_SIZE_def history_sum_NaN_last js_gt_def)
  next
    case False
    then have ne: "h \<noteq> []" by auto
    then have "tl (h @ [NaN]) = tl h @ [NaN]" by simp
    with False show ?thesis
      by (simp add: detectBeat_def Let_def e inf_of_sign_def HISTORY_SIZE_def history_sum_NaN_last js_gt_def)
  qed
qed


lemma sqrt_6400: "sqrt 6400 = 80"
  using real_sqrt_abs [of 80] by simp




text \<open>
  The second example of C4 depends on the sensitivity: \<open>no_beat_at_average\<close> covers every
  sensitivity from 1 on, and below 1 a call whose energy equals the average can be a beat.
\<close>

lemma beat_at_average_low_sensitivity:
  "isBeat (fst (detectBeat (80 # replicate 9 0) (Fin (1 / 2)) []))"
proof -
  have l: "bass_loop fd (Suc 0) 0 (Fin 0) = js_add (Fin 0) (js_mul (u8_get fd 0) (u8_get fd 0))" for fd
    by (subst bass_loop.simps, subst bass_loop.simps) simp
  show ?thesis
    by (simp add: detectBeat_def Let_def l u8_get_def sqrt_6400 HISTORY_SIZE_def history_sum_def js_gt_def)
qed

section \<open>Properties of YIN pitch detection\<close>

text \<open>
  For a buffer of finite samples \<open>xs\<close>, the loops of steps 1 and 2 compute \<open>diff_fn\<close>,
  \<open>run_sum\<close> and \<open>cmnd_fn\<close> (\<open>yin_cmnd_nth\<close>).
\<close>

lemma diff_fn_nonneg: "0 \<le> diff_fn xs tau"
  by (simp add: diff_fn_def sum_nonneg)

lemma run_sum_nonneg: "0 \<le> run_sum xs tau"
  by (simp add: run_sum_def sum_nonneg diff_fn_nonneg)

lemma run_sum_Suc: "run_sum xs (Suc tau) = run_sum xs tau + diff_fn xs (Suc tau)"
  by (simp add: run_sum_def)

lemma run_sum_zero: "run_sum xs 0 = 0"
  by (simp add: run_sum_def)

lemma diff_inner_length [simp]: "length (diff_inner buffer tau i ys) = length ys"
  by (induction buffer tau i ys rule: diff_inner.induct)
     (subst diff_inner.simps, simp add: Let_def)

lemma diff_inner_closed:
  "length ys = length xs div 2 \<Longrightarrow> tau < length ys \<Longrightarrow> i \<le> length ys \<Longrightarrow> ys ! tau = Fin a \<Longrightarrow>
   diff_inner (map Fin xs) tau i ys =
     ys[tau := Fin (a + (\<Sum>k = i..<length ys. (xs ! k - xs ! (k + tau))\<^sup>2))]"
proof (induction "length ys - i" arbitrary: i ys a)
  case 0
  then have "i = length ys" by simp
  then show ?case
    using 0 list_update_id [of ys tau] by (subst diff_inner.simps) simp
next
  case (Suc n)
  then have lt: "i < length ys" by simp
  have r1: "f32_get (map Fin xs) (int i) = Fin (xs ! i)"
    using lt Suc.prems by (simp add: f32_get_def)
  have "i + tau < length xs"
    using lt Suc.prems by linarith
  then have r2: "f32_get (map Fin xs) (int (i + tau)) = Fin (xs ! (i + tau))"
    by (simp add: f32_get_def nat_add_distrib)
  have r3: "f32_get ys (int tau) = Fin a"
    using Suc.prems by (simp add: f32_get_def)
  let ?a = "a + (xs ! i - xs ! (i + tau))\<^sup>2"
  let ?ys = "ys[tau := Fin ?a]"
  have step: "diff_inner (map Fin xs) tau i ys = diff_inner (map Fin xs) tau (Suc i) ?ys"
    using lt r1 r2 r3 by (subst diff_inner.simps) (simp add: Let_def js_sub_def power2_eq_square)
  have "diff_inner (map Fin xs) tau (Suc i) ?ys =
      ?ys[tau := Fin (?a + (\<Sum>k = Suc i..<length ?ys. (xs ! k - xs ! (k + tau))\<^sup>2))]"
    using Suc.hyps Suc.prems lt by (intro Suc.hyps(1)) simp_all
  then show ?case
    using step lt by (simp add: sum.atLeast_Suc_lessThan add.assoc)
qed

lemma diff_inner_from_zero:
  "length ys = length xs div 2 \<Longrightarrow> tau < length ys \<Longrightarrow>
   diff_inner (map Fin xs) tau 0 (ys[tau := Fin 0]) = ys[tau := Fin (diff_fn xs tau)]"
  using diff_inner_closed [of "ys[tau := Fin 0]" xs tau 0 0]
  by (simp add: diff_fn_def lessThan_atLeast0)

lemma diff_outer_closed:
  "length ys = length xs div 2 \<Longrightarrow> \<forall>k<tau. k < length ys \<longrightarrow> ys ! k = Fin (diff_fn xs k) \<Longrightarrow>
   diff_outer (map Fin xs) tau ys = map (\<lambda>k. Fin (diff_fn xs k)) [0..<length ys]"
proof (induction "length ys - tau" arbitrary: tau ys)
  case 0
  then have "length ys \<le> tau" by simp
  then have "diff_outer (map Fin xs) tau ys = ys"
    by (subst diff_outer.simps) simp
  moreover have "ys = map (\<lambda>k. Fin (diff_fn xs k)) [0..<length ys]"
    using 0 \<open>length ys \<le> tau\<close> by (intro nth_equalityI) auto
  ultimately show ?case by simp
next
  case (Suc n)
  then have lt: "tau < length ys" by simp
  let ?ys = "ys[tau := Fin (diff_fn xs tau)]"
  have step: "diff_outer (map Fin xs) tau ys = diff_outer (map Fin xs) (Suc tau) ?ys"
    using lt Suc.prems by (subst diff_outer.simps) (simp add: diff_inner_from_zero)
  have "diff_outer (map Fin xs) (Suc tau) ?ys = map (\<lambda>k. Fin (diff_fn xs k)) [0..<length ?ys]"
  proof (rule Suc.hyps(1))
    show "n = length ?ys - Suc tau" using Suc.hyps by simp
    show "length ?ys = length xs div 2" using Suc.prems by simp
    show "\<forall>k<Suc tau. k < length ?ys \<longrightarrow> ?ys ! k = Fin (diff_fn xs k)"
      using Suc.prems lt by (auto simp: nth_list_update less_Suc_eq)
  qed
  then show ?case using step by simp
qed

lemma cmnd_loop_length [simp]: "length (cmnd_loop tau rs ys) = length ys"
  by (induction tau rs ys rule: cmnd_loop.induct)
     (subst cmnd_loop.simps, simp add: Let_def)

lemma cmnd_step:
  "0 < tau \<Longrightarrow>
   js_mul (Fin (diff_fn xs tau)) (js_div (Fin (real tau)) (Fin (run_sum xs tau))) = cmnd_fn xs tau"
proof (cases "run_sum xs tau = 0")
  case True
  assume "0 < tau"
  then obtain t where t: "tau = Suc t" by (cases tau) auto
  have "diff_fn xs tau = 0"
    using True diff_fn_nonneg [of xs tau] run_sum_nonneg [of xs t]
    by (simp add: t run_sum_Suc add_nonneg_eq_0_iff)
  then show ?thesis
    using True \<open>0 < tau\<close> by (simp add: cmnd_fn_def inf_of_sign_def)
next
  case False
  then show ?thesis by (simp add: cmnd_fn_def)
qed

lemma cmnd_loop_closed:
  "0 < tau \<Longrightarrow> \<forall>k. tau \<le> k \<and> k < length ys \<longrightarrow> ys ! k = Fin (diff_fn xs k) \<Longrightarrow>
   k < length ys \<Longrightarrow>
   cmnd_loop tau (Fin (run_sum xs (tau - 1))) ys ! k = (if k < tau then ys ! k else cmnd_fn xs k)"
proof (induction "length ys - tau" arbitrary: tau ys)
  case 0
  then show ?case by (subst cmnd_loop.simps) simp
next
  case (Suc n)
  then have lt: "tau < length ys" by simp
  obtain t where t: "tau = Suc t" using Suc.prems(1) by (cases tau) auto
  have r: "f32_get ys (int tau) = Fin (diff_fn xs tau)"
    using lt Suc.prems by (simp add: f32_get_def)
  let ?ys = "ys[tau := cmnd_fn xs tau]"
  have rs: "run_sum xs (tau - 1) + diff_fn xs tau = run_sum xs tau"
    by (simp add: t run_sum_Suc)
  have step: "cmnd_loop tau (Fin (run_sum xs (tau - 1))) ys =
      cmnd_loop (Suc tau) (Fin (run_sum xs (Suc tau - 1))) ?ys"
    using lt r rs cmnd_step [OF Suc.prems(1), of xs]
    by (subst cmnd_loop.simps) (simp add: Let_def)
  have "cmnd_loop (Suc tau) (Fin (run_sum xs (Suc tau - 1))) ?ys ! k =
      (if k < Suc tau then ?ys ! k else cmnd_fn xs k)"
  proof (rule Suc.hyps(1))
    show "n = length ?ys - Suc tau" using Suc.hyps by simp
    show "0 < Suc tau" by simp
    show "\<forall>k. Suc tau \<le> k \<and> k < length ?ys \<longrightarrow> ?ys ! k = Fin (diff_fn xs k)"
      using Suc.prems by simp
    show "k < length ?ys" using Suc.prems by simp
  qed
  then show ?case
    using step lt Suc.prems(3) by (auto simp: nth_list_update less_Suc_eq)
qed

lemma yin_cmnd_length: "length (yin_cmnd buffer) = length buffer div 2"
proof -
  have "length (diff_outer b tau ys) = length ys" for b tau ys
    by (induction b tau ys rule: diff_outer.induct)
       (subst diff_outer.simps, simp)
  then show ?thesis by (simp add: yin_cmnd_def Let_def)
qed

lemma yin_cmnd_nth:
  assumes "0 < k" and "k < length xs div 2"
  shows "yin_cmnd (map Fin xs) ! k = cmnd_fn xs k"
proof -
  let ?H = "length xs div 2"
  let ?d = "map (\<lambda>k. Fin (diff_fn xs k)) [0..<?H]"
  have d: "diff_outer (map Fin xs) 0 (replicate ?H (Fin 0)) = ?d"
    using diff_outer_closed [of "replicate ?H (Fin 0)" xs 0] by simp
  have "cmnd_loop 1 (Fin (run_sum xs (1 - 1))) (?d[0 := Fin 1]) ! k =
      (if k < 1 then (?d[0 := Fin 1]) ! k else cmnd_fn xs k)"
    using assms by (intro cmnd_loop_closed) simp_all
  then show ?thesis
    using assms d by (simp add: yin_cmnd_def Let_def run_sum_zero)
qed

lemma f32_get_nth: "k < length ys \<Longrightarrow> f32_get ys (int k) = ys ! k"
  by (simp add: f32_get_def)




lemma search_none:
  "\<forall>k. tau \<le> k \<and> k < length ys \<longrightarrow> \<not> js_lt (ys ! k) th \<Longrightarrow> search ys th tau = - 1"
proof (induction "length ys - tau" arbitrary: tau)
  case 0
  then show ?case by (subst search.simps) simp
next
  case (Suc n)
  then have lt: "tau < length ys" by simp
  have "search ys th tau = search ys th (Suc tau)"
    using lt Suc.prems by (subst search.simps) (simp add: f32_get_nth)
  moreover have "search ys th (Suc tau) = - 1"
    using Suc.hyps Suc.prems by (intro Suc.hyps(1)) simp_all
  ultimately show ?case by simp
qed









text \<open>
  C1. On an all-zero buffer of any length \<^verbatim>\<open>detectPitchYIN\<close> returns \<^verbatim>\<open>null\<close>,
  for every sample rate and threshold: every normalised difference from lag 1 on is
  \<open>NaN\<close>, and no comparison with the threshold holds.
\<close>

theorem silence_no_pitch: "detectPitchYIN (replicate n (Fin 0)) sampleRate threshold = None"
proof -
  let ?xs = "replicate n (0::real)"
  let ?ys = "yin_cmnd (map Fin ?xs)"
  have len: "length ?ys = n div 2"
    by (simp add: yin_cmnd_length)
  have d: "diff_fn ?xs k = 0" if "k < n div 2" for k
  proof -
    have "j + k < n" if "j < n div 2" for j
      using that \<open>k < n div 2\<close> by linarith
    then show ?thesis by (simp add: diff_fn_def)
  qed
  have "run_sum ?xs k = 0" if "k < n div 2" for k
    using that by (simp add: run_sum_def d)
  then have c: "cmnd_fn ?xs k = NaN" if "k < n div 2" for k
    using that by (simp add: cmnd_fn_def)
  have "\<forall>k. 2 \<le> k \<and> k < length ?ys \<longrightarrow> \<not> js_lt (?ys ! k) threshold"
  proof (intro allI impI)
    fix k assume k: "2 \<le> k \<and> k < length ?ys"
    then have "?ys ! k = cmnd_fn ?xs k"
      using len by (intro yin_cmnd_nth) simp_all
    then show "\<not> js_lt (?ys ! k) threshold"
      using c [of k] k len by simp
  qed
  then have "search ?ys threshold 2 = - 1"
    by (rule search_none)
  then show ?thesis
    by (simp add: detectPitchYIN_def Let_def)
qed


lemmas yin_eval = detectPitchYIN_def yin_cmnd_def diff_outer.simps diff_inner.simps
  cmnd_loop.simps search.simps descend.simps parabolic_def f32_get_def Let_def js_sub_def
  inf_of_sign_def



text \<open>
  The other two hypotheses are needed as well: a \<open>NaN\<close> sample next to the estimate
  gives \<open>NaN\<close> at the default threshold, and the sample rate 0 gives 0 Hz.
\<close>

lemma detectPitchYIN_NaN_sample:
  "detectPitchYIN [Fin 1, Fin 0, Fin 1, Fin 0, Fin 1, Fin 0, NaN, Fin 0] (Fin 44100) (Fin (1 / 10)) = Some NaN"
  by (simp add: yin_eval)

lemma detectPitchYIN_zero_rate:
  "detectPitchYIN (map Fin [1, 0, 1, 0, 1, 0, 1, 0]) (Fin 0) (Fin (1 / 10)) = Some (Fin 0)"
  by (simp add: yin_eval)

section \<open>Properties of the note mapping\<close>


lemma indexOf_nth: "distinct xs \<Longrightarrow> i < length xs \<Longrightarrow> indexOf xs (xs ! i) = int i"
proof (induction xs arbitrary: i)
  case Nil
  then show ?case by simp
next
  case (Cons y ys)
  show ?case
  proof (cases i)
    case 0
    then show ?thesis by simp
  next
    case (Suc j)
    then have j: "j < length ys" using Cons.prems by simp
    then have "ys ! j \<noteq> y" using Cons.prems by auto
    then show ?thesis
      using Cons.IH [of j] Cons.prems j Suc by (simp add: Let_def)
  qed
qed

lemma NOTE_NAMES_distinct: "distinct NOTE_NAMES" and NOTE_NAMES_length: "length NOTE_NAMES = 12"
  by (simp_all add: NOTE_NAMES_def)

lemma indexOf_NOTE_NAMES: "i < 12 \<Longrightarrow> indexOf NOTE_NAMES (NOTE_NAMES ! i) = int i"
  using indexOf_nth [OF NOTE_NAMES_distinct, of i] by (simp add: NOTE_NAMES_length)


lemma js_rem_normalised:
  "(if js_rem a 12 \<ge> 0 then js_rem a 12 else js_rem a 12 + 12) = a mod 12"
proof (cases "0 \<le> a")
  case True
  then show ?thesis by (cases "a = 0") (simp_all add: js_rem_def)
next
  case False
  then have s: "sgn a = - 1" by simp
  have "js_rem a 12 = - ((- a) mod 12)"
    using False by (simp add: js_rem_def s)
  moreover have "0 \<le> (- a) mod 12" by simp
  moreover have "(if (- a) mod 12 = 0 then 0 else 12 - (- a) mod 12) = a mod 12"
    using zmod_zminus1_eq_if [of "- a" 12] by simp
  ultimately show ?thesis
    by (cases "(- a) mod 12 = 0") auto
qed

lemma noteToFrequency_catalog:
  "i < 12 \<Longrightarrow> noteToFrequency (NOTE_NAMES ! i) (Fin (of_int oc)) =
     Fin (440 * 2 powr (of_int (int i - 9 + (oc - 4) * 12) / 12))"
  by (simp add: noteToFrequency_def indexOf_NOTE_NAMES Let_def js_sub_def)

lemma frequencyToNote_semitone:
  "frequencyToNote (Fin (440 * 2 powr (of_int k / 12))) =
     Some \<lparr>frequency = Fin (440 * 2 powr (of_int k / 12)),
           noteName = NOTE_NAMES ! nat ((k + 9) mod 12),
           octave = (k + 9) div 12 + 4, cents = 0\<rparr>"
proof -
  have pos: "\<not> (440 * 2 powr (real_of_int k / 12) \<le> 0)"
    by (simp add: not_le)
  have semi: "12 * log 2 (440 * 2 powr (real_of_int k / 12) / 440) = real_of_int k"
    by simp
  have rnd: "\<lfloor>real_of_int k + 1 / 2\<rfloor> = k"
    by linarith
  have oct: "\<lfloor>(of_int (k + 9) :: real) / 12\<rfloor> = (k + 9) div 12"
    using floor_divide_of_int_eq [of "k + 9" 12, where ?'a = real] by simp
  show ?thesis
    unfolding frequencyToNote_def
    using pos by (simp only: js_le.simps isFinite.simps jsnum.case Let_def semi rnd oct
        js_rem_normalised if_False simp_thms) simp
qed

lemma roundtrip_catalog:
  assumes "i < 12"
  shows "frequencyToNote (noteToFrequency (NOTE_NAMES ! i) (Fin (of_int oc))) =
     Some \<lparr>frequency = noteToFrequency (NOTE_NAMES ! i) (Fin (of_int oc)),
           noteName = NOTE_NAMES ! i, octave = oc, cents = 0\<rparr>"
proof -
  let ?k = "int i - 9 + (oc - 4) * 12"
  have k: "?k + 9 = int i + 12 * (oc - 4)" by simp
  have "(int i + 12 * (oc - 4)) mod 12 = int i mod 12"
    by (rule mod_mult_self2)
  then have m: "(?k + 9) mod 12 = int i"
    unfolding k using assms by (simp del: mod_mult_self2)
  have "(int i + 12 * (oc - 4)) div 12 = oc - 4 + int i div 12"
    by (rule div_mult_self2) simp
  then have d: "(?k + 9) div 12 + 4 = oc"
    unfolding k using assms by (simp del: div_mult_self2)
  show ?thesis
    unfolding noteToFrequency_catalog [OF assms] frequencyToNote_semitone m d by simp
qed

lemma in_concat_map: "p \<in> set (concat (map f xs)) \<longleftrightarrow> (\<exists>x\<in>set xs. p \<in> set (f x))"
  by auto

lemma getPianoNotes_members:
  "(nm, oc, f) \<in> set getPianoNotes \<Longrightarrow>
   \<exists>i<12. nm = NOTE_NAMES ! i \<and> f = noteToFrequency nm (Fin (of_int oc))"
proof -
  assume "(nm, oc, f) \<in> set getPianoNotes"
  then have "\<exists>b\<in>set [0..<9]. \<exists>a\<in>set [0..<12].
      (nm, oc, f) \<in> set (if b = 0 \<and> a < 9 then [] else if b = 8 \<and> a > 0 then []
          else [(NOTE_NAMES ! a, int b, noteToFrequency (NOTE_NAMES ! a) (Fin (real b)))])"
    unfolding getPianoNotes_def in_concat_map .
  then obtain b a where a: "a \<in> set [0..<12]"
    and m: "(nm, oc, f) \<in> set (if b = 0 \<and> a < 9 then [] else if b = 8 \<and> a > 0 then []
          else [(NOTE_NAMES ! a, int b, noteToFrequency (NOTE_NAMES ! a) (Fin (real b)))])"
    by (elim bexE)
  have "nm = NOTE_NAMES ! a \<and> f = noteToFrequency nm (Fin (of_int oc))"
    using m by (cases "b = 0 \<and> a < 9"; cases "b = 8 \<and> a > 0") simp_all
  moreover have "a < 12" using a by simp
  ultimately show ?thesis
    by (intro exI [of _ a]) simp
qed

lemma getPianoNotes_intro:
  assumes "a < 12" and "b < 9" and "\<not> (b = 0 \<and> a < 9)" and "\<not> (b = 8 \<and> a > 0)"
  shows "(NOTE_NAMES ! a, int b, noteToFrequency (NOTE_NAMES ! a) (Fin (real b))) \<in> set getPianoNotes"
  unfolding getPianoNotes_def in_concat_map
  using assms by (intro bexI [of _ b] bexI [of _ a]) simp_all

lemma getPianoNotes_A4: "(''A'', 4, noteToFrequency ''A'' (Fin 4)) \<in> set getPianoNotes"
  using getPianoNotes_intro [of 9 4] by (simp add: NOTE_NAMES_def)


lemma getPianoNotes_length: "length getPianoNotes = 88"
  unfolding getPianoNotes_def by (simp add: upt_conv_Cons)

text \<open>
  C3. For every note of the piano range, as \<^verbatim>\<open>getPianoNotes\<close> lists it (88 notes, A0
  to C8), \<^verbatim>\<open>frequencyToNote(noteToFrequency(note, octave))\<close> gives back the note and
  the octave, with cents within 1 of 0 (over the reals the cents are 0, see
  \<open>roundtrip_catalog\<close>); \<^verbatim>\<open>noteToFrequency("A", 4)\<close> is 440 and
  \<^verbatim>\<open>frequencyToNote(440)\<close> is A, 4, 0 cents.
\<close>

theorem note_roundtrip:
  "(\<forall>(nm, oc, f) \<in> set getPianoNotes.
      \<exists>r. frequencyToNote (noteToFrequency nm (Fin (of_int oc))) = Some r \<and>
          noteName r = nm \<and> octave r = oc \<and> \<bar>cents r\<bar> \<le> 1) \<and>
   noteToFrequency ''A'' (Fin 4) = Fin 440 \<and>
   frequencyToNote (Fin 440) = Some \<lparr>frequency = Fin 440, noteName = ''A'', octave = 4, cents = 0\<rparr>"
proof (intro conjI ballI)
  fix p assume p: "p \<in> set getPianoNotes"
  obtain nm oc f where e: "p = (nm, oc, f)" by (cases p) auto
  then obtain i where i: "i < 12" "nm = NOTE_NAMES ! i"
    using p getPianoNotes_members by blast
  show "case p of (nm, oc, f) \<Rightarrow>
      \<exists>r. frequencyToNote (noteToFrequency nm (Fin (of_int oc))) = Some r \<and>
          noteName r = nm \<and> octave r = oc \<and> \<bar>cents r\<bar> \<le> 1"
    using roundtrip_catalog [OF i(1), of oc] by (simp add: e i(2))
next
  have "noteToFrequency (NOTE_NAMES ! 9) (Fin (of_int 4)) = Fin 440"
    by (subst noteToFrequency_catalog) simp_all
  then show a: "noteToFrequency ''A'' (Fin 4) = Fin 440"
    by (simp add: NOTE_NAMES_def)
  have "frequencyToNote (Fin (440 * 2 powr (of_int 0 / 12))) =
      Some \<lparr>frequency = Fin (440 * 2 powr (of_int 0 / 12)),
            noteName = NOTE_NAMES ! nat ((0 + 9) mod 12), octave = (0 + 9) div 12 + 4, cents = 0\<rparr>"
    by (rule frequencyToNote_semitone)
  then show "frequencyToNote (Fin 440) =
      Some \<lparr>frequency = Fin 440, noteName = ''A'', octave = 4, cents = 0\<rparr>"
    by (simp add: NOTE_NAMES_def)
qed

theorem note_roundtrip_witness:
  "(''A'', 4, noteToFrequency ''A'' (Fin 4)) \<in> set getPianoNotes \<and>
   (\<exists>r. frequencyToNote (noteToFrequency ''A'' (Fin 4)) = Some r \<and>
        noteName r = ''A'' \<and> octave r = 4 \<and> \<bar>cents r\<bar> \<le> 1)"
  using getPianoNotes_A4 note_roundtrip by fastforce

section \<open>Properties of the spectral features\<close>

lemma loop_from_bounds: "i \<in> set (loop_from s hi n) \<Longrightarrow> s \<le> i \<and> i < n"
proof (induction s hi n rule: loop_from.induct)
  case (1 s hi n)
  show ?case
  proof (cases "js_lt (Fin (of_int s)) hi \<and> s < n")
    case True
    then have "loop_from s hi n = s # loop_from (s + 1) hi n"
      by (subst loop_from.simps) simp
    then have "i = s \<or> i \<in> set (loop_from (s + 1) hi n)"
      using "1.prems" by simp
    then show ?thesis
      using True "1.IH" [OF True] by auto
  next
    case False
    then have "loop_from s hi n = []"
      by (subst loop_from.simps) simp
    then show ?thesis using "1.prems" by simp
  qed
qed

lemma loop_from_Nil: "\<not> js_lt (Fin (of_int s)) hi \<Longrightarrow> loop_from s hi n = []"
  by (subst loop_from.simps) simp

lemma loop_from_not_Nil: "js_lt (Fin (of_int s)) hi \<Longrightarrow> s < n \<Longrightarrow> loop_from s hi n \<noteq> []"
  by (subst loop_from.simps) simp

lemma frequencyToBin_nonneg:
  assumes "js_le (Fin 0) freq" and "js_lt (Fin 0) sr" and "js_lt (Fin 0) fft"
  shows "(\<exists>b\<ge>0. frequencyToBin freq sr fft = Fin (of_int b)) \<or>
         frequencyToBin freq sr fft = PInf \<or> frequencyToBin freq sr fft = NaN"
proof -
  have fl: "0 \<le> \<lfloor>a * f / s + 1 / 2\<rfloor>" if "0 \<le> a" "0 < f" "0 < s" for a f s :: real
  proof -
    have "0 \<le> a * f / s" using that by simp
    then show ?thesis by simp
  qed
  show ?thesis
    using assms fl
    by (cases freq; cases sr; cases fft) (auto simp: frequencyToBin_def inf_of_sign_def)
qed

lemma loop_indices_nonneg_start:
  assumes "(\<exists>b\<ge>c. lo = Fin (of_int b)) \<or> lo = PInf \<or> lo = NaN"
  shows "\<exists>bins. loop_indices lo hi n = Some bins \<and> (\<forall>i\<in>set bins. c \<le> i \<and> i < n)"
proof -
  consider b where "c \<le> b" "lo = Fin (of_int b)" | "lo = PInf" | "lo = NaN"
    using assms by blast
  then show ?thesis
  proof cases
    case 1
    have "\<forall>i\<in>set (loop_from b hi n). c \<le> i \<and> i < n"
      using loop_from_bounds [of _ b hi n] 1(1) by fastforce
    then show ?thesis
      using 1(2) by simp
  qed simp_all
qed

lemma dominant_bins_in_bounds:
  assumes "js_le (Fin 0) minFreq" and "js_lt (Fin 0) sampleRate" and "js_lt (Fin 0) fftSize"
  shows "\<exists>bins. dominant_bins fd sampleRate fftSize minFreq maxFreq = Some bins \<and>
           (\<forall>i\<in>set bins. 0 \<le> i \<and> i < int (length fd))"
  unfolding dominant_bins_def Let_def
  by (rule loop_indices_nonneg_start) (rule frequencyToBin_nonneg [OF assms])

lemma peak_bins_in_bounds:
  assumes "js_le (Fin 0) minFreq" and "js_lt (Fin 0) sampleRate" and "js_lt (Fin 0) fftSize"
  shows "\<exists>bins. peak_bins fd sampleRate fftSize minFreq maxFreq = Some bins \<and>
           (\<forall>i\<in>set bins. 0 \<le> i - 1 \<and> i + 1 < int (length fd))"
proof -
  let ?m = "frequencyToBin minFreq sampleRate fftSize"
  have "(\<exists>b\<ge>1. js_add ?m (Fin 1) = Fin (of_int b)) \<or> js_add ?m (Fin 1) = PInf \<or>
      js_add ?m (Fin 1) = NaN"
  proof -
    consider b where "0 \<le> b" "?m = Fin (of_int b)" | "?m = PInf" | "?m = NaN"
      using frequencyToBin_nonneg [OF assms] by blast
    then show ?thesis
    proof cases
      case 1
      then have "js_add ?m (Fin 1) = Fin (of_int (b + 1))" by simp
      then show ?thesis using 1(1) by (intro disjI1 exI [of _ "b + 1"]) simp
    qed simp_all
  qed
  then obtain bins where "peak_bins fd sampleRate fftSize minFreq maxFreq = Some bins"
      and "\<forall>i\<in>set bins. 1 \<le> i \<and> i < int (length fd) - 1"
    unfolding peak_bins_def Let_def
    using loop_indices_nonneg_start [of 1 "js_add ?m (Fin 1)"] by blast
  then show ?thesis by fastforce
qed

lemma bands_positive: "band \<in> set bands \<Longrightarrow> 0 < fst band \<and> fst band \<le> snd band"
  by (auto simp: bands_def)

lemma band_bins_dominant:
  "band_bins fd sampleRate fftSize band =
     dominant_bins fd sampleRate fftSize (Fin (fst band)) (Fin (snd band))"
  by (simp add: band_bins_def dominant_bins_def)

text \<open>
  C10. For every spectrum, every \<^verbatim>\<open>minFreq >= 0\<close>, every \<^verbatim>\<open>maxFreq\<close> and every
  positive sample rate and transform size, the three bin loops end, and every index at
  which they read the spectrum lies inside it: \<^verbatim>\<open>getDominantFrequency\<close> and
  \<^verbatim>\<open>calculateBandEnergies\<close> read at the loop index \<open>i\<close>,
  \<^verbatim>\<open>getFrequencyPeaks\<close> at \<open>i - 1\<close>, \<open>i\<close> and \<open>i + 1\<close>.
\<close>

theorem bin_reads_in_bounds:
  assumes "js_le (Fin 0) minFreq" and "js_lt (Fin 0) sampleRate" and "js_lt (Fin 0) fftSize"
  shows "(\<exists>bins. dominant_bins fd sampleRate fftSize minFreq maxFreq = Some bins \<and>
            (\<forall>i\<in>set bins. 0 \<le> i \<and> i < int (length fd))) \<and>
         (\<exists>bins. peak_bins fd sampleRate fftSize minFreq maxFreq = Some bins \<and>
            (\<forall>i\<in>set bins. 0 \<le> i - 1 \<and> i + 1 < int (length fd))) \<and>
         (\<forall>band\<in>set bands. \<exists>bins. band_bins fd sampleRate fftSize band = Some bins \<and>
            (\<forall>i\<in>set bins. 0 \<le> i \<and> i < int (length fd)))"
proof (intro conjI ballI)
  show "\<exists>bins. dominant_bins fd sampleRate fftSize minFreq maxFreq = Some bins \<and>
      (\<forall>i\<in>set bins. 0 \<le> i \<and> i < int (length fd))"
    by (rule dominant_bins_in_bounds [OF assms])
  show "\<exists>bins. peak_bins fd sampleRate fftSize minFreq maxFreq = Some bins \<and>
      (\<forall>i\<in>set bins. 0 \<le> i - 1 \<and> i + 1 < int (length fd))"
    by (rule peak_bins_in_bounds [OF assms])
next
  fix band assume "band \<in> set bands"
  then have "js_le (Fin 0) (Fin (fst band))"
    using bands_positive [of band] by simp
  then show "\<exists>bins. band_bins fd sampleRate fftSize band = Some bins \<and>
      (\<forall>i\<in>set bins. 0 \<le> i \<and> i < int (length fd))"
    unfolding band_bins_dominant by (rule dominant_bins_in_bounds [OF _ assms(2,3)])
qed

lemma loop_from_eval:
  "loop_from 0 (Fin 7) 4 = [0, 1, 2, 3]" "loop_from 1 (Fin 6) 3 = [1, 2]"
  by (simp_all add: loop_from.simps)

text \<open>
  A spectrum of 4 bins with a bin range of 0 to 7: the scans stop at the end of the
  spectrum.
\<close>

theorem bin_reads_in_bounds_witness:
  "js_le (Fin 0) (Fin 80) \<and> js_lt (Fin 0) (Fin 44100) \<and> js_lt (Fin 0) (Fin 8) \<and>
   dominant_bins [10, 200, 30, 40] (Fin 44100) (Fin 8) (Fin 80) (Fin 40000) = Some [0, 1, 2, 3] \<and>
   peak_bins [10, 200, 30, 40] (Fin 44100) (Fin 8) (Fin 80) (Fin 40000) = Some [1, 2] \<and>
   (\<exists>bins. dominant_bins [10, 200, 30, 40] (Fin 44100) (Fin 8) (Fin 80) (Fin 40000) = Some bins \<and>
      (\<forall>i\<in>set bins. 0 \<le> i \<and> i < int (length [10, 200, 30, 40 :: 8 word]))) \<and>
   (\<exists>bins. peak_bins [10, 200, 30, 40] (Fin 44100) (Fin 8) (Fin 80) (Fin 40000) = Some bins \<and>
      (\<forall>i\<in>set bins. 0 \<le> i - 1 \<and> i + 1 < int (length [10, 200, 30, 40 :: 8 word])))"
proof -
  have h: "js_le (Fin 0) (Fin 80)" "js_lt (Fin 0) (Fin 44100)" "js_lt (Fin 0) (Fin 8)"
    by simp_all
  have f1: "\<lfloor>(80 * 8 / 44100 + 1 / 2 :: real)\<rfloor> = 0" and f2: "\<lfloor>(40000 * 8 / 44100 + 1 / 2 :: real)\<rfloor> = 7"
    by (simp_all add: floor_eq_iff)
  have d: "dominant_bins [10, 200, 30, 40] (Fin 44100) (Fin 8) (Fin 80) (Fin 40000) = Some [0, 1, 2, 3]"
    using f1 f2 by (simp add: dominant_bins_def frequencyToBin_def loop_from_eval)
  have p: "peak_bins [10, 200, 30, 40] (Fin 44100) (Fin 8) (Fin 80) (Fin 40000) = Some [1, 2]"
    using f1 f2 by (simp add: peak_bins_def frequencyToBin_def js_sub_def loop_from_eval)
  show ?thesis
    using h d p bin_reads_in_bounds [OF h, of "[10, 200, 30, 40]" "Fin 40000"] by blast
qed

lemma frequencyToBin_pair:
  assumes "0 < lo" and "lo \<le> hi"
  shows "frequencyToBin (Fin lo) sr fft = NaN \<or> frequencyToBin (Fin lo) sr fft = PInf \<or>
         (frequencyToBin (Fin lo) sr fft = NInf \<and> frequencyToBin (Fin hi) sr fft = NInf) \<or>
         (\<exists>a b. frequencyToBin (Fin lo) sr fft = Fin (of_int a) \<and>
                frequencyToBin (Fin hi) sr fft = Fin (of_int b) \<and> (0 \<le> a \<or> b \<le> a))"
proof -
  have hi: "0 < hi" using assms by simp
  have fl: "0 \<le> \<lfloor>lo * f / s + 1 / 2\<rfloor> \<or> \<lfloor>hi * f / s + 1 / 2\<rfloor> \<le> \<lfloor>lo * f / s + 1 / 2\<rfloor>" for f s :: real
  proof (cases "0 \<le> f / s")
    case True
    then have "0 \<le> lo * (f / s)" using assms(1) by (intro mult_nonneg_nonneg) simp_all
    then have "0 \<le> lo * f / s" by (simp only: times_divide_eq_right)
    then have "0 \<le> \<lfloor>lo * f / s + 1 / 2\<rfloor>" by simp
    then show ?thesis by simp
  next
    case False
    then have "hi * (f / s) \<le> lo * (f / s)"
      using assms(2) by (intro mult_right_mono_neg) simp_all
    then have "hi * f / s \<le> lo * f / s" by (simp only: times_divide_eq_right)
    then have "hi * f / s + 1 / 2 \<le> lo * f / s + 1 / 2" by simp
    then show ?thesis by (intro disjI2 floor_mono)
  qed
  show ?thesis
  proof (cases sr; cases fft)
    fix s f assume "sr = Fin s" "fft = Fin f"
    then show ?thesis
      using fl [of f s] assms(1) hi
      by (cases "s = 0") (auto simp: frequencyToBin_def inf_of_sign_def zero_less_mult_iff)
  qed (use assms(1) hi in \<open>auto simp: frequencyToBin_def inf_of_sign_def\<close>)
qed

lemma band_bins_in_bounds:
  assumes "0 < lo" and "lo \<le> hi"
  shows "\<exists>bins. band_bins fd sr fft (lo, hi) = Some bins \<and>
           (\<forall>i\<in>set bins. 0 \<le> i \<and> i < int (length fd))"
proof -
  let ?m = "frequencyToBin (Fin lo) sr fft" and ?M = "frequencyToBin (Fin hi) sr fft"
  consider "?m = NaN" | "?m = PInf" | "?m = NInf" "?M = NInf"
    | a b where "?m = Fin (of_int a)" "?M = Fin (of_int b)" "0 \<le> a \<or> b \<le> a"
    using frequencyToBin_pair [OF assms, of sr fft] by blast
  then show ?thesis
  proof cases
    case 4
    show ?thesis
    proof (cases "0 \<le> a")
      case True
      have "\<forall>i\<in>set (loop_from a ?M (int (length fd))). 0 \<le> i \<and> i < int (length fd)"
        using loop_from_bounds [of _ a ?M "int (length fd)"] True by fastforce
      then show ?thesis using 4(1) by (simp add: band_bins_def)
    next
      case False
      then have "loop_from a ?M (int (length fd)) = []"
        using 4 by (intro loop_from_Nil) simp
      then show ?thesis using 4(1) by (simp add: band_bins_def)
    qed
  qed (simp_all add: band_bins_def)
qed

lemma uniform_sum:
  "\<forall>i\<in>set bins. 0 \<le> i \<and> i < int n \<Longrightarrow>
   foldl (\<lambda>s i. js_add s (u8_get (replicate n 100) i)) (Fin a) bins =
     Fin (a + 100 * real (length bins))"
proof (induction bins arbitrary: a)
  case Nil
  then show ?case by simp
next
  case (Cons i bins)
  then have "0 \<le> i" "i < int n" by simp_all
  then have "nat i < n" by linarith
  then have "replicate n (100 :: 8 word) ! nat i = 100" by simp
  then have "u8_get (replicate n 100) i = Fin 100"
    using Cons.prems by (simp add: u8_get_def)
  then show ?case
    using Cons by (simp add: algebra_simps)
qed

lemma band_energy_uniform:
  assumes "0 < lo" and "lo \<le> hi"
  shows "band_energy (replicate n 100) sr fft (lo, hi) =
     Some (if band_bins (replicate n 100) sr fft (lo, hi) = Some [] then Fin 0 else Fin 100)"
proof -
  obtain bins where b: "band_bins (replicate n 100) sr fft (lo, hi) = Some bins"
      and r: "\<forall>i\<in>set bins. 0 \<le> i \<and> i < int n"
    using band_bins_in_bounds [OF assms, of "replicate n 100" sr fft] by auto
  show ?thesis
  proof (cases "bins = []")
    case True
    then show ?thesis by (simp add: band_energy_def b)
  next
    case False
    then have "real (length bins) \<noteq> 0" by simp
    then show ?thesis
      using uniform_sum [OF r, of 0] False by (simp add: band_energy_def b Let_def)
  qed
qed

lemma band_bins_44100:
  assumes "0 < a" and "a < b" and "a < 1024"
    and "\<lfloor>lo * 2048 / 44100 + 1 / 2\<rfloor> = a" and "\<lfloor>hi * 2048 / 44100 + 1 / 2\<rfloor> = b"
  shows "band_bins (replicate 1024 100) (Fin 44100) (Fin 2048) (lo, hi) \<noteq> Some []"
  using assms loop_from_not_Nil [of a "Fin (of_int b)" 1024]
  by (simp add: band_bins_def frequencyToBin_def)

lemma bands_44100:
  "band_bins (replicate 1024 100) (Fin 44100) (Fin 2048) (20, 60) \<noteq> Some []"
  "band_bins (replicate 1024 100) (Fin 44100) (Fin 2048) (60, 250) \<noteq> Some []"
  "band_bins (replicate 1024 100) (Fin 44100) (Fin 2048) (250, 500) \<noteq> Some []"
  "band_bins (replicate 1024 100) (Fin 44100) (Fin 2048) (500, 2000) \<noteq> Some []"
  "band_bins (replicate 1024 100) (Fin 44100) (Fin 2048) (2000, 4000) \<noteq> Some []"
  "band_bins (replicate 1024 100) (Fin 44100) (Fin 2048) (4000, 6000) \<noteq> Some []"
  "band_bins (replicate 1024 100) (Fin 44100) (Fin 2048) (6000, 20000) \<noteq> Some []"
  by (rule band_bins_44100 [of 1 3], simp_all add: floor_eq_iff)
     (rule band_bins_44100 [of 3 12], simp_all add: floor_eq_iff,
      rule band_bins_44100 [of 12 23], simp_all add: floor_eq_iff,
      rule band_bins_44100 [of 23 93], simp_all add: floor_eq_iff,
      rule band_bins_44100 [of 93 186], simp_all add: floor_eq_iff,
      rule band_bins_44100 [of 186 279], simp_all add: floor_eq_iff,
      rule band_bins_44100 [of 279 929], simp_all add: floor_eq_iff)

text \<open>
  C6. On a spectrum of any length whose bins all hold 100, for every sample rate and
  transform size, \<^verbatim>\<open>calculateBandEnergies\<close> returns for each of the seven bands
  the energy 100, or 0 when no bin falls in the band; with 1024 bins, sample rate 44100
  and transform size 2048 every band has a bin and all seven energies are 100.
\<close>

theorem uniform_band_energies:
  "(\<exists>r. calculateBandEnergies (replicate n 100) sr fft = Some r \<and>
      subBass r = (if band_bins (replicate n 100) sr fft (20, 60) = Some [] then Fin 0 else Fin 100) \<and>
      bass r = (if band_bins (replicate n 100) sr fft (60, 250) = Some [] then Fin 0 else Fin 100) \<and>
      lowMid r = (if band_bins (replicate n 100) sr fft (250, 500) = Some [] then Fin 0 else Fin 100) \<and>
      mid r = (if band_bins (replicate n 100) sr fft (500, 2000) = Some [] then Fin 0 else Fin 100) \<and>
      highMid r = (if band_bins (replicate n 100) sr fft (2000, 4000) = Some [] then Fin 0 else Fin 100) \<and>
      presence r = (if band_bins (replicate n 100) sr fft (4000, 6000) = Some [] then Fin 0 else Fin 100) \<and>
      brilliance r = (if band_bins (replicate n 100) sr fft (6000, 20000) = Some [] then Fin 0 else Fin 100)) \<and>
   calculateBandEnergies (replicate 1024 100) (Fin 44100) (Fin 2048) =
     Some \<lparr>subBass = Fin 100, bass = Fin 100, lowMid = Fin 100, mid = Fin 100,
           highMid = Fin 100, presence = Fin 100, brilliance = Fin 100\<rparr>"
proof -
  have e: "map (band_energy (replicate n 100) sr fft) bands =
      map (\<lambda>band. Some (if band_bins (replicate n 100) sr fft band = Some [] then Fin 0 else Fin 100)) bands"
    for n sr fft
    by (simp add: bands_def band_energy_uniform)
  have c: "calculateBandEnergies (replicate n 100) sr fft =
      Some \<lparr>subBass = (if band_bins (replicate n 100) sr fft (20, 60) = Some [] then Fin 0 else Fin 100),
            bass = (if band_bins (replicate n 100) sr fft (60, 250) = Some [] then Fin 0 else Fin 100),
            lowMid = (if band_bins (replicate n 100) sr fft (250, 500) = Some [] then Fin 0 else Fin 100),
            mid = (if band_bins (replicate n 100) sr fft (500, 2000) = Some [] then Fin 0 else Fin 100),
            highMid = (if band_bins (replicate n 100) sr fft (2000, 4000) = Some [] then Fin 0 else Fin 100),
            presence = (if band_bins (replicate n 100) sr fft (4000, 6000) = Some [] then Fin 0 else Fin 100),
            brilliance = (if band_bins (replicate n 100) sr fft (6000, 20000) = Some [] then Fin 0 else Fin 100)\<rparr>"
    for n sr fft
    unfolding calculateBandEnergies_def e by (simp add: bands_def)
  show ?thesis
    unfolding c [of 1024 "Fin 44100" "Fin 2048"] using bands_44100 by (simp add: c)
qed

section \<open>Signals of failure\<close>





end
